theory Spec2Isabelle
  imports Main "HOL-Library.Sublist"
begin

section \<open>Data model of src/App.tsx\<close>

text \<open>
  \<^verbatim>\<open>type StepStatus = 'idle' | 'loading' | 'success' | 'error'\<close>. The specification calls
  \<open>loading\<close> "running".
\<close>

datatype StepStatus = idle | loading | success | error

text \<open>\<^verbatim>\<open>interface Step { id; label; status }\<close>; the field \<open>id\<close> is written \<open>id_s\<close>.\<close>

record Step =
  id_s :: string
  label :: string
  status :: StepStatus

text \<open>
  The \<open>type\<close> field of a log entry, \<^verbatim>\<open>'info' | 'success' | 'error' | 'warning'\<close>; the two
  names shared with \<open>StepStatus\<close> carry the suffix \<open>_log\<close>.
\<close>

datatype LogType = info | success_log | error_log | warning

record LogEntry =
  timestamp :: string
  message :: string
  type_l :: LogType

text \<open>
  The component state of \<open>App\<close> that the deployment handler reads or writes: one field per
  \<open>useState\<close> cell. (The \<open>code\<close> cell is never read by \<open>handleDeploy\<close> and is left out.)
  A JavaScript string is modelled as a \<open>string\<close> whose characters are the UTF-16 code
  units below 256.
\<close>

record AppState =
  projectName :: string
  isDeploying :: bool
  deployedUrl :: "string option"
  logs :: "LogEntry list"
  steps :: "Step list"

definition initial_steps :: "Step list" where
  "initial_steps =
    [\<lparr>id_s = ''validate'', label = ''Validate & Bundle Code'', status = idle\<rparr>,
     \<lparr>id_s = ''github'', label = ''Create GitHub Repository'', status = idle\<rparr>,
     \<lparr>id_s = ''push'', label = ''Push to Main Branch'', status = idle\<rparr>,
     \<lparr>id_s = ''vercel'', label = ''Deploy to Vercel'', status = idle\<rparr>,
     \<lparr>id_s = ''live'', label = ''Verify Live URL'', status = idle\<rparr>]"

definition initial_state :: AppState where
  "initial_state =
    \<lparr>projectName = ''my-awesome-app'', isDeploying = False, deployedUrl = None,
     logs = [], steps = initial_steps\<rparr>"

section \<open>State setters\<close>

text \<open>
  \<open>addLog\<close> reads the wall clock (\<open>now\<close>, a parameter here) and appends one entry:
  \<^verbatim>\<open>setLogs(prev => [...prev, { timestamp: now, message, type }])\<close>.
\<close>

definition addLog :: "string \<Rightarrow> string \<Rightarrow> LogType \<Rightarrow> AppState \<Rightarrow> AppState" where
  "addLog now msg ty s =
     s\<lparr>logs := logs s @ [\<lparr>timestamp = now, message = msg, type_l = ty\<rparr>]\<rparr>"

text \<open>\<^verbatim>\<open>setSteps(prev => prev.map(s => s.id === id ? { ...s, status } : s))\<close>\<close>

definition updateStep :: "string \<Rightarrow> StepStatus \<Rightarrow> AppState \<Rightarrow> AppState" where
  "updateStep i st s =
     s\<lparr>steps := map (\<lambda>x. if id_s x = i then x\<lparr>status := st\<rparr> else x) (steps s)\<rparr>"

text \<open>
  \<^verbatim>\<open>steps.findIndex(s => s.status === 'loading')\<close>, the index of the stage shown as current;
  JavaScript's \<open>-1\<close> is \<open>None\<close>.
\<close>

fun findIndex :: "('a \<Rightarrow> bool) \<Rightarrow> 'a list \<Rightarrow> nat option" where
  "findIndex P [] = None"
| "findIndex P (x # xs) =
     (if P x then Some 0 else map_option Suc (findIndex P xs))"

definition currentStepIndex :: "AppState \<Rightarrow> nat option" where
  "currentStepIndex s = findIndex (\<lambda>x. status x = loading) (steps s)"

section \<open>The body of \<open>handleDeploy\<close>\<close>

text \<open>
  The \<open>try\<close> block is straight-line code: calls of \<open>updateStep\<close>, \<open>addLog\<close> and
  \<open>setDeployedUrl\<close>, and awaited timers. One constructor per kind of statement.
\<close>

datatype stmt =
    UpdateStep string StepStatus
  | AddLog string LogType
  | Await nat
  | SetDeployedUrl string

text \<open>The statements of lines 166 to 212, in order; \<open>pn\<close> is the \<open>projectName\<close> the handler closed over.\<close>

definition deploy_body :: "string \<Rightarrow> stmt list" where
  \<open>deploy_body pn =
    (let url = ''https://'' @ pn @ ''.vercel.app'' in
     [UpdateStep ''validate'' loading,
      AddLog ''Starting deployment process...'' info,
      Await 800,
      AddLog ''Analyzing dependency tree...'' info,
      Await 800,
      AddLog ''Code validation successful. Bundle size: 42KB'' success_log,
      UpdateStep ''validate'' success,

      UpdateStep ''github'' loading,
      AddLog ''Connecting to GitHub API...'' info,
      Await 1000,
      AddLog (''Creating repository '' @ [CHR 0x27] @ pn @ [CHR 0x27] @ ''...'') info,
      Await 1200,
      AddLog (''Repository created: github.com/user/'' @ pn) success_log,
      UpdateStep ''github'' success,

      UpdateStep ''push'' loading,
      AddLog ''Initializing git...'' info,
      Await 600,
      AddLog ''Staging files...'' info,
      AddLog (''Committing: '' @ [CHR 0x22] @ ''Initial commit'' @ [CHR 0x22]) info,
      Await 1000,
      AddLog ''Pushing to origin/main...'' success_log,
      UpdateStep ''push'' success,

      UpdateStep ''vercel'' loading,
      AddLog ''Triggering Vercel deployment hook...'' info,
      Await 1500,
      AddLog ''Build started in container i-0a1b2c...'' info,
      AddLog ''Installing dependencies...'' info,
      Await 2000,
      AddLog ''Build completed in 2.4s'' success_log,
      UpdateStep ''vercel'' success,

      UpdateStep ''live'' loading,
      AddLog ''Assigning domains...'' info,
      Await 800,
      AddLog (''Deployment active at '' @ url) success_log,
      UpdateStep ''live'' success,
      SetDeployedUrl url])\<close>

text \<open>The effect of one statement that completes; \<open>now\<close> is the clock reading at that moment.\<close>

fun exec_stmt :: "string \<Rightarrow> stmt \<Rightarrow> AppState \<Rightarrow> AppState" where
  "exec_stmt now (UpdateStep i st) s = updateStep i st s"
| "exec_stmt now (AddLog msg ty) s = addLog now msg ty s"
| "exec_stmt now (Await ms) s = s"
| "exec_stmt now (SetDeployedUrl u) s = s\<lparr>deployedUrl := Some u\<rparr>"

fun is_await :: "stmt \<Rightarrow> bool" where
  "is_await (Await ms) = True"
| "is_await c = False"

text \<open>
  Running the \<open>try\<close> block. The state setters return normally; the only expressions of
  the block that can complete abruptly are the awaited promises, so an exception is the
  rejection of an \<open>await\<close>. The promises of the source are timers, which do not reject:
  in the runs of the program no await rejects (\<open>rej\<close> is \<open>never\<close> below) and the block
  completes. The parameter \<open>rej\<close> (\<open>rej pc\<close>: the promise awaited by statement number \<open>pc\<close>
  rejects) is there to state what the \<open>catch\<close> clause does when it is entered; \<open>clk pc\<close>
  is the clock reading when statement \<open>pc\<close> runs. The result is the list of states after
  each completed statement, and whether the block was left by an exception.
\<close>

fun try_block ::
  "(nat \<Rightarrow> string) \<Rightarrow> (nat \<Rightarrow> bool) \<Rightarrow> nat \<Rightarrow> stmt list \<Rightarrow> AppState \<Rightarrow> AppState list \<times> bool"
where
  "try_block clk rej pc [] s = ([], False)"
| "try_block clk rej pc (c # cs) s =
     (if is_await c \<and> rej pc then ([], True)
      else let s' = exec_stmt (clk pc) c s;
               r = try_block clk rej (Suc pc) cs s'
           in (s' # fst r, snd r))"

text \<open>
  A handler belongs to a render: \<open>isDeploying\<close>, \<open>steps\<close> and \<open>projectName\<close> in its body are
  the constants of the render \<open>r\<close> that created it, while its setter calls act on the state
  \<open>s\<close> the component has when they are made. A setter only queues an update, so \<open>s\<close> and
  \<open>r\<close> differ from the first setter call of a handler until React has rendered again.

  Lines 160 to 163: the four setters that start a run. \<open>setSteps\<close> is given the \<open>steps\<close> of
  the render, with every status replaced.
\<close>

definition start_reset_of :: "AppState \<Rightarrow> AppState \<Rightarrow> AppState list" where
  "start_reset_of r s =
    (let s1 = s\<lparr>isDeploying := True\<rparr>;
         s2 = s1\<lparr>deployedUrl := None\<rparr>;
         s3 = s2\<lparr>logs := []\<rparr>;
         s4 = s3\<lparr>steps := map (\<lambda>x. x\<lparr>status := idle\<rparr>) (steps r)\<rparr>
     in [s1, s2, s3, s4])"

text \<open>The reset when the render is up to date: the state is the one the render shows.\<close>

definition start_reset :: "AppState \<Rightarrow> AppState list" where
  "start_reset s = start_reset_of s s"

definition run_outcome :: "(nat \<Rightarrow> string) \<Rightarrow> (nat \<Rightarrow> bool) \<Rightarrow> AppState \<Rightarrow> AppState list \<times> bool" where
  "run_outcome clk rej s =
     try_block clk rej 0 (deploy_body (projectName s)) (last (start_reset s))"

text \<open>
  The \<open>catch\<close> clause (line 215), entered in state \<open>s\<close> when the block threw; \<open>clk 36\<close> is
  the clock reading at that moment (the body has the statements 0 to 35).
\<close>

definition catch_clause :: "(nat \<Rightarrow> string) \<Rightarrow> bool \<Rightarrow> AppState \<Rightarrow> AppState list" where
  "catch_clause clk thrown s =
     (if thrown
      then [addLog (clk 36) ''An unexpected error occurred during deployment.'' error_log s]
      else [])"

text \<open>
  \<open>handleDeploy\<close> as created by the render \<open>r\<close> and called in the state \<open>s\<close>: the guard of
  line 159, which tests the \<open>isDeploying\<close> of the render, the reset, the \<open>try\<close> block, the
  \<open>catch\<close> clause and the \<open>finally\<close> clause. The value is the list of the states this call
  takes the component through, one per setter call, in order; it is empty when the guard
  returns at once.
\<close>

definition handleDeploy_of ::
  "AppState \<Rightarrow> (nat \<Rightarrow> string) \<Rightarrow> (nat \<Rightarrow> bool) \<Rightarrow> AppState \<Rightarrow> AppState list"
where
  "handleDeploy_of r clk rej s =
     (if isDeploying r then []
      else let pre = start_reset_of r s;
               out = try_block clk rej 0 (deploy_body (projectName r)) (last pre);
               s5 = last (pre @ fst out);
               h = catch_clause clk (snd out) s5;
               s6 = last (s5 # h)
           in pre @ fst out @ h @ [s6\<lparr>isDeploying := False\<rparr>])"

text \<open>
  The call of the handler of the current render with no update pending: the start of a run
  that does not overlap another one.
\<close>

definition handleDeploy :: "(nat \<Rightarrow> string) \<Rightarrow> (nat \<Rightarrow> bool) \<Rightarrow> AppState \<Rightarrow> AppState list" where
  "handleDeploy clk rej s = handleDeploy_of s clk rej s"

text \<open>The state the component is left in by a call of the handler.\<close>

definition final_state :: "(nat \<Rightarrow> string) \<Rightarrow> (nat \<Rightarrow> bool) \<Rightarrow> AppState \<Rightarrow> AppState" where
  "final_state clk rej s = last (s # handleDeploy clk rej s)"

section \<open>The project-name input\<close>

text \<open>
  Line 264: \<^verbatim>\<open>setProjectName(e.target.value.toLowerCase().replace(/\s+/g, '-'))\<close>.
  On code units below 256, \<open>\s\<close> matches tab, line feed, vertical tab, form feed, carriage
  return, space and no-break space, and \<open>toLowerCase\<close> acts on each character: it adds 32
  to the letters A to Z and to the capital letters of the range 192 to 222 (215, the
  multiplication sign, is not one).
\<close>

definition is_space :: "char \<Rightarrow> bool" where
  "is_space c = (let n = (of_char c :: nat) in
     n = 9 \<or> n = 10 \<or> n = 11 \<or> n = 12 \<or> n = 13 \<or> n = 32 \<or> n = 160)"

definition toLowerCase_char :: "char \<Rightarrow> char" where
  "toLowerCase_char c = (let n = (of_char c :: nat) in
     if (65 \<le> n \<and> n \<le> 90) \<or> (192 \<le> n \<and> n \<le> 214) \<or> (216 \<le> n \<and> n \<le> 222)
     then char_of (n + 32) else c)"

definition toLowerCase :: "string \<Rightarrow> string" where
  "toLowerCase xs = map toLowerCase_char xs"

text \<open>
  \<^verbatim>\<open>.replace(/\s+/g, '-')\<close>: scanning from the left, a whitespace character starts a match
  that takes all the whitespace that follows (\<open>+\<close> is greedy) and is replaced by one hyphen;
  any other character is copied.
\<close>

function replace_spaces :: "string \<Rightarrow> string" where
  "replace_spaces [] = []"
| "replace_spaces (c # cs) =
     (if is_space c then CHR ''-'' # replace_spaces (dropWhile is_space cs)
      else c # replace_spaces cs)"
  by pat_completeness auto
termination
  by (relation "measure length") (auto simp: length_dropWhile_le less_Suc_eq_le)

definition normalizeName :: "string \<Rightarrow> string" where
  "normalizeName raw = replace_spaces (toLowerCase raw)"

definition onChange :: "string \<Rightarrow> AppState \<Rightarrow> AppState" where
  "onChange raw s = s\<lparr>projectName := normalizeName raw\<rparr>"

text \<open>
  The specification's wording of the same: the lowercased string is cut into its maximal
  runs of whitespace and of other characters, and each run of whitespace becomes one hyphen.
\<close>

function runs :: "('a \<Rightarrow> bool) \<Rightarrow> 'a list \<Rightarrow> 'a list list" where
  "runs P [] = []"
| "runs P (x # xs) =
     (x # takeWhile (\<lambda>y. P y = P x) xs) # runs P (dropWhile (\<lambda>y. P y = P x) xs)"
  by pat_completeness auto
termination
  by (relation "measure (\<lambda>(P, xs). length xs)") (auto simp: length_dropWhile_le less_Suc_eq_le)

definition normalizeName_spec :: "string \<Rightarrow> string" where
  "normalizeName_spec raw =
     concat (map (\<lambda>r. if is_space (hd r) then ''-'' else r) (runs is_space (toLowerCase raw)))"

section \<open>Observations on a run\<close>

text \<open>The statuses of the stages, in registry order.\<close>

definition statuses :: "AppState \<Rightarrow> StepStatus list" where
  "statuses s = map status (steps s)"

definition count_status :: "StepStatus \<Rightarrow> AppState \<Rightarrow> nat" where
  "count_status x s = length (filter (\<lambda>y. status y = x) (steps s))"

text \<open>
  The states of a run from the completed reset on: the first three states of the handler are
  those after \<open>setIsDeploying(true)\<close>, \<open>setDeployedUrl(null)\<close> and \<open>setLogs([])\<close>, which
  still show the stages of the run before.
\<close>

definition run_states :: "(nat \<Rightarrow> string) \<Rightarrow> (nat \<Rightarrow> bool) \<Rightarrow> AppState \<Rightarrow> AppState list" where
  "run_states clk rej s = drop 3 (handleDeploy clk rej s)"

text \<open>Whether the \<open>try\<close> block was left by an exception, and the state in which it was left.\<close>

definition thrown :: "(nat \<Rightarrow> string) \<Rightarrow> (nat \<Rightarrow> bool) \<Rightarrow> AppState \<Rightarrow> bool" where
  "thrown clk rej s = snd (run_outcome clk rej s)"

definition state_at_exit :: "(nat \<Rightarrow> string) \<Rightarrow> (nat \<Rightarrow> bool) \<Rightarrow> AppState \<Rightarrow> AppState" where
  "state_at_exit clk rej s = last (start_reset s @ fst (run_outcome clk rej s))"

text \<open>
  The stage list of every state of the component carries the five ids of line 141 to 147:
  the setters replace statuses only.
\<close>

definition has_registry :: "AppState \<Rightarrow> bool" where
  "has_registry s = (map id_s (steps s) = [''validate'', ''github'', ''push'', ''vercel'', ''live''])"

text \<open>
  The states the component can be in: the initial one, a state after an edit of the project
  name (the input is not disabled during a run, and the handler has read the name when it
  started), and every state a call of the handler goes through.
\<close>

inductive reachable :: "AppState \<Rightarrow> bool" where
  init: "reachable initial_state"
| edit: "reachable s \<Longrightarrow> reachable (onChange raw s)"
| deploy: "reachable s \<Longrightarrow> st \<in> set (handleDeploy clk rej s) \<Longrightarrow> reachable st"

text \<open>Environments used for concrete runs: a clock that stands still, and which await rejects.\<close>

definition noon :: "nat \<Rightarrow> string" where
  "noon = (\<lambda>pc. ''12:00:00'')"

definition reject_at :: "nat \<Rightarrow> nat \<Rightarrow> bool" where
  "reject_at n = (\<lambda>pc. pc = n)"

definition never :: "nat \<Rightarrow> bool" where
  "never = (\<lambda>pc. False)"

section \<open>The run, tabulated\<close>

text \<open>The \<open>try\<close> block when no await rejects.\<close>

fun exec_all :: "(nat \<Rightarrow> string) \<Rightarrow> nat \<Rightarrow> stmt list \<Rightarrow> AppState \<Rightarrow> AppState list" where
  "exec_all clk pc [] s = []"
| "exec_all clk pc (c # cs) s =
     (let s' = exec_stmt (clk pc) c s in s' # exec_all clk (Suc pc) cs s')"

definition await_positions :: "stmt list \<Rightarrow> nat list" where
  "await_positions cs = filter (\<lambda>k. is_await (cs ! k)) [0..<length cs]"

text \<open>What the claims observe of a state: the statuses, the kinds of the log entries, the result.\<close>

definition view :: "AppState \<Rightarrow> StepStatus list \<times> LogType list \<times> string option" where
  "view s = (map status (steps s), map type_l (logs s), deployedUrl s)"

text \<open>
  The statuses after \<open>p\<close> calls of \<open>updateStep\<close> in the body: stages are marked \<open>loading\<close> and
  then \<open>success\<close>, one after the other.
\<close>

definition stage_statuses :: "nat \<Rightarrow> StepStatus list" where
  "stage_statuses p =
     replicate (p div 2) success @ (if odd p then [loading] else [])
       @ replicate (5 - (p + 1) div 2) idle"

definition body_kinds :: "LogType list" where
  "body_kinds = [info, info, success_log, info, info, success_log, info, info, info, success_log,
                 info, info, info, success_log, info, success_log]"

text \<open>
  After each of the first 35 statements of the body: how many \<open>updateStep\<close> calls and how
  many \<open>addLog\<close> calls have been made (lemma \<open>body_views_exec\<close> below).
\<close>

definition body_progress :: "(nat \<times> nat) list" where
  "body_progress =
    [(1, 0), (1, 1), (1, 1), (1, 2), (1, 2), (1, 3), (2, 3),
     (3, 3), (3, 4), (3, 4), (3, 5), (3, 5), (3, 6), (4, 6),
     (5, 6), (5, 7), (5, 7), (5, 8), (5, 9), (5, 9), (5, 10), (6, 10),
     (7, 10), (7, 11), (7, 11), (7, 12), (7, 13), (7, 13), (7, 14), (8, 14),
     (9, 14), (9, 15), (9, 15), (9, 16), (10, 16)]"

definition body_views :: "string \<Rightarrow> (StepStatus list \<times> LogType list \<times> string option) list" where
  "body_views pn =
     map (\<lambda>(p, n). (stage_statuses p, take n body_kinds, None)) body_progress
     @ [(stage_statuses 10, body_kinds, Some (''https://'' @ pn @ ''.vercel.app''))]"

text \<open>
  What is observed along a run whose \<open>try\<close> block completes \<open>k\<close> statements (\<open>k = 36\<close>: all
  of them): the state after the reset, the body, the \<open>catch\<close> clause, the \<open>finally\<close> clause.
\<close>

definition run_views :: "string \<Rightarrow> nat \<Rightarrow> (StepStatus list \<times> LogType list \<times> string option) list" where
  "run_views pn k =
     (let vs = (stage_statuses 0, [], None) # take k (body_views pn);
          v = last vs;
          h = (if k < 36 then [(fst v, fst (snd v) @ [error_log], snd (snd v))] else [])
      in vs @ h @ [last (v # h)])"

section \<open>Lemmas on the run\<close>

subsection \<open>The handler of the current render\<close>

lemma start_reset_eq:
  "start_reset s =
    (let s1 = s\<lparr>isDeploying := True\<rparr>;
         s2 = s1\<lparr>deployedUrl := None\<rparr>;
         s3 = s2\<lparr>logs := []\<rparr>;
         s4 = s3\<lparr>steps := map (\<lambda>x. x\<lparr>status := idle\<rparr>) (steps s)\<rparr>
     in [s1, s2, s3, s4])"
  by (simp add: start_reset_def start_reset_of_def)

lemma handleDeploy_eq:
  "handleDeploy clk rej s =
     (if isDeploying s then []
      else let pre = start_reset s;
               r = run_outcome clk rej s;
               s5 = last (pre @ fst r);
               h = catch_clause clk (snd r) s5;
               s6 = last (s5 # h)
           in pre @ fst r @ h @ [s6\<lparr>isDeploying := False\<rparr>])"
  by (simp add: handleDeploy_def handleDeploy_of_def start_reset_def run_outcome_def Let_def)

text \<open>
  A handler whose render has \<open>isDeploying\<close> false makes its setter calls in whatever state
  it is called: the guard does not see an update that is queued and not yet rendered.
\<close>

lemma stale_render_starts_run:
  "\<not> isDeploying r \<Longrightarrow>
     handleDeploy_of r clk rej s \<noteq> [] \<and> hd (handleDeploy_of r clk rej s) = s\<lparr>isDeploying := True\<rparr>"
  by (simp add: handleDeploy_of_def start_reset_of_def Let_def)

subsection \<open>The \<open>try\<close> block stops at the first await that rejects\<close>

lemma try_block_prefix:
  "\<exists>k\<le>length cs. try_block clk rej pc cs s = (take k (exec_all clk pc cs s), k < length cs)
      \<and> (k < length cs \<longrightarrow> is_await (cs ! k) \<and> rej (pc + k))"
proof (induction cs arbitrary: pc s)
  case Nil
  then show ?case by simp
next
  case (Cons c cs)
  show ?case
  proof (cases "is_await c \<and> rej pc")
    case True
    then show ?thesis by (intro exI[of _ 0]) simp
  next
    case False
    obtain k where k: "k \<le> length cs"
      "try_block clk rej (Suc pc) cs (exec_stmt (clk pc) c s)
         = (take k (exec_all clk (Suc pc) cs (exec_stmt (clk pc) c s)), k < length cs)"
      "k < length cs \<longrightarrow> is_await (cs ! k) \<and> rej (Suc pc + k)"
      using Cons.IH by blast
    show ?thesis using False k by (intro exI[of _ "Suc k"]) (auto simp: Let_def)
  qed
qed

lemma length_deploy_body: "length (deploy_body pn) = 36"
  by (simp add: deploy_body_def Let_def)

lemma await_positions_body:
  "await_positions (deploy_body pn) = [2, 4, 9, 11, 16, 19, 24, 27, 32]"
  unfolding await_positions_def deploy_body_def Let_def by code_simp

lemma run_outcome_cases:
  obtains k where "k \<in> set [2, 4, 9, 11, 16, 19, 24, 27, 32, 36]"
    "run_outcome clk rej s =
       (take k (exec_all clk 0 (deploy_body (projectName s)) (last (start_reset s))), k < 36)"
    "k < 36 \<longrightarrow> rej k"
proof -
  obtain k where k: "k \<le> 36"
    "run_outcome clk rej s =
       (take k (exec_all clk 0 (deploy_body (projectName s)) (last (start_reset s))), k < 36)"
    "k < 36 \<longrightarrow> is_await (deploy_body (projectName s) ! k) \<and> rej k"
    using try_block_prefix[of "deploy_body (projectName s)" clk rej 0 "last (start_reset s)"]
    by (auto simp: run_outcome_def length_deploy_body)
  have "k = 36 \<or> k \<in> set (await_positions (deploy_body (projectName s)))"
    using k(1,3) by (auto simp: await_positions_def length_deploy_body)
  then have "k \<in> set [2, 4, 9, 11, 16, 19, 24, 27, 32, 36]"
    by (auto simp: await_positions_body)
  then show ?thesis using k that by blast
qed

lemma run_views_cases:
  assumes "k \<in> set [2, 4, 9, 11, 16, 19, 24, 27, 32, 36]"
  obtains "k = 2" | "k = 4" | "k = 9" | "k = 11" | "k = 16" | "k = 19" | "k = 24" | "k = 27"
    | "k = 32" | "k = 36"
  using assms by auto

subsection \<open>The handler, unfolded\<close>

lemma handleDeploy_decomp:
  assumes "\<not> isDeploying s"
  obtains k where "k \<in> set [2, 4, 9, 11, 16, 19, 24, 27, 32, 36]"
    "thrown clk rej s = (k < 36)" "k < 36 \<longrightarrow> rej k"
    "handleDeploy clk rej s =
       start_reset s
       @ take k (exec_all clk 0 (deploy_body (projectName s)) (last (start_reset s)))
       @ catch_clause clk (k < 36) (state_at_exit clk rej s)
       @ [(last (state_at_exit clk rej s # catch_clause clk (k < 36) (state_at_exit clk rej s)))
            \<lparr>isDeploying := False\<rparr>]"
    "run_states clk rej s =
       (last (start_reset s)
         # take k (exec_all clk 0 (deploy_body (projectName s)) (last (start_reset s))))
       @ catch_clause clk (k < 36) (state_at_exit clk rej s)
       @ [(last (state_at_exit clk rej s # catch_clause clk (k < 36) (state_at_exit clk rej s)))
            \<lparr>isDeploying := False\<rparr>]"
    "state_at_exit clk rej s
       = last (last (start_reset s)
               # take k (exec_all clk 0 (deploy_body (projectName s)) (last (start_reset s))))"
    "state_at_exit clk rej s
       = last (start_reset s
               @ take k (exec_all clk 0 (deploy_body (projectName s)) (last (start_reset s))))"
proof -
  let ?full = "exec_all clk 0 (deploy_body (projectName s)) (last (start_reset s))"
  let ?e = "state_at_exit clk rej s"
  obtain k where k: "k \<in> set [2, 4, 9, 11, 16, 19, 24, 27, 32, 36]"
    "run_outcome clk rej s = (take k ?full, k < 36)" "k < 36 \<longrightarrow> rej k"
    by (rule run_outcome_cases)
  obtain p where pre: "start_reset s = p @ [last (start_reset s)]" "length p = 3"
    by (simp add: start_reset_eq Let_def)
  have ex: "?e = last (last (start_reset s) # take k ?full)"
    unfolding state_at_exit_def k(2) by (subst pre(1)) simp
  define F where "F = (last (?e # catch_clause clk (k < 36) ?e))\<lparr>isDeploying := False\<rparr>"
  have hd: "handleDeploy clk rej s = start_reset s @ take k ?full @ catch_clause clk (k < 36) ?e @ [F]"
    using assms
    by (simp add: handleDeploy_eq Let_def k(2) state_at_exit_def F_def del: last.simps)
  have rs: "run_states clk rej s
      = (last (start_reset s) # take k ?full) @ catch_clause clk (k < 36) ?e @ [F]"
    unfolding run_states_def hd by (subst pre(1)) (simp add: pre(2))
  have th: "thrown clk rej s = (k < 36)"
    by (simp add: thrown_def k(2))
  have ex2: "?e = last (start_reset s @ take k ?full)"
    by (simp add: state_at_exit_def k(2))
  show ?thesis
    using k(1,3) th hd rs ex ex2 that unfolding F_def by blast
qed

lemma handleDeploy_final:
  assumes "\<not> isDeploying s"
  shows "final_state clk rej s = last (run_states clk rej s)"
    and "run_states clk rej s \<noteq> []"
    and "handleDeploy clk rej s \<noteq> []"
    and "\<not> isDeploying (final_state clk rej s)"
    and "final_state clk rej s
          = (last (state_at_exit clk rej s
                    # catch_clause clk (thrown clk rej s) (state_at_exit clk rej s)))
              \<lparr>isDeploying := False\<rparr>"
    and "final_state clk rej s = (last (butlast (handleDeploy clk rej s)))\<lparr>isDeploying := False\<rparr>"
proof -
  let ?e = "state_at_exit clk rej s"
  let ?full = "exec_all clk 0 (deploy_body (projectName s)) (last (start_reset s))"
  let ?F = "\<lambda>k. (last (?e # catch_clause clk (k < 36) ?e))\<lparr>isDeploying := False\<rparr>"
  obtain k :: nat where k: "thrown clk rej s = (k < 36)"
    "handleDeploy clk rej s
       = start_reset s @ take k ?full @ catch_clause clk (k < 36) ?e @ [?F k]"
    "run_states clk rej s
       = (last (start_reset s) # take k ?full) @ catch_clause clk (k < 36) ?e @ [?F k]"
    "?e = last (start_reset s @ take k ?full)"
    using handleDeploy_decomp[OF assms, of clk rej] by metis
  show "handleDeploy clk rej s \<noteq> []" by (simp add: k(2))
  show "run_states clk rej s \<noteq> []" by (simp add: k(3))
  show "final_state clk rej s = last (run_states clk rej s)"
    by (simp add: final_state_def k(2,3))
  show "\<not> isDeploying (final_state clk rej s)"
    by (simp add: final_state_def k(2))
  show fs: "final_state clk rej s = (last (?e # catch_clause clk (thrown clk rej s) ?e))
      \<lparr>isDeploying := False\<rparr>"
    by (simp add: final_state_def k(1,2))
  have "butlast (handleDeploy clk rej s)
      = (start_reset s @ take k ?full) @ catch_clause clk (k < 36) ?e"
    unfolding k(2) by (simp add: butlast_append)
  then have "last (butlast (handleDeploy clk rej s)) = last (?e # catch_clause clk (k < 36) ?e)"
    unfolding k(4) by (simp add: catch_clause_def start_reset_eq Let_def)
  then show "final_state clk rej s
      = (last (butlast (handleDeploy clk rej s)))\<lparr>isDeploying := False\<rparr>"
    unfolding fs k(1) by simp
qed

subsection \<open>What the statements leave alone\<close>

lemma isDeploying_exec_stmt: "isDeploying (exec_stmt now c s) = isDeploying s"
  by (cases c) (simp_all add: updateStep_def addLog_def)

lemma projectName_exec_stmt: "projectName (exec_stmt now c s) = projectName s"
  by (cases c) (simp_all add: updateStep_def addLog_def)

lemma ids_exec_stmt: "map id_s (steps (exec_stmt now c s)) = map id_s (steps s)"
  by (cases c) (simp_all add: updateStep_def addLog_def comp_def)

lemma exec_all_preserves:
  assumes "\<And>now c s. f (exec_stmt now c s) = f s" "st \<in> set (exec_all clk pc cs s)"
  shows "f st = f s"
  using assms(2)
proof (induction cs arbitrary: pc s)
  case Nil
  then show ?case by simp
next
  case (Cons c cs)
  from Cons.prems have "st = exec_stmt (clk pc) c s
      \<or> st \<in> set (exec_all clk (Suc pc) cs (exec_stmt (clk pc) c s))"
    by (simp add: Let_def)
  then show ?case
    using Cons.IH[of "Suc pc" "exec_stmt (clk pc) c s"] assms(1) by auto
qed

lemma handleDeploy_preserves:
  assumes ex: "\<And>now c x. f (exec_stmt now c x) = f x"
    and fin: "\<And>x b. f (x\<lparr>isDeploying := b\<rparr>) = f x"
    and lg: "\<And>now m ty x. f (addLog now m ty x) = f x"
    and rst: "\<forall>x\<in>set (start_reset s). f x = f s"
    and st: "st \<in> set (handleDeploy clk rej s)"
  shows "f st = f s"
proof -
  have nd: "\<not> isDeploying s" using st by (auto simp: handleDeploy_eq split: if_splits)
  let ?full = "exec_all clk 0 (deploy_body (projectName s)) (last (start_reset s))"
  let ?e = "state_at_exit clk rej s"
  obtain k where k: "handleDeploy clk rej s =
       start_reset s @ take k ?full @ catch_clause clk (k < 36) ?e
       @ [(last (?e # catch_clause clk (k < 36) ?e))\<lparr>isDeploying := False\<rparr>]"
    "?e = last (last (start_reset s) # take k ?full)"
    using handleDeploy_decomp[OF nd, of clk rej] by metis
  have l: "f (last (start_reset s)) = f s"
    using rst by (simp add: start_reset_eq Let_def)
  have 2: "\<forall>x\<in>set (take k ?full). f x = f s"
    using exec_all_preserves[of f _ clk 0 _ "last (start_reset s)", OF ex] l
    by (auto dest!: in_set_takeD)
  have "?e \<in> set (last (start_reset s) # take k ?full)"
    unfolding k(2) by (rule last_in_set) simp
  then have 3: "f ?e = f s"
    using l 2 by auto
  then have 4: "\<forall>x\<in>set (catch_clause clk (k < 36) ?e). f x = f s"
    by (simp add: catch_clause_def lg)
  have 5: "f ((last (?e # catch_clause clk (k < 36) ?e))\<lparr>isDeploying := False\<rparr>) = f s"
    using 3 by (simp add: catch_clause_def lg fin)
  show ?thesis
    using st rst 2 4 5 by (subst (asm) k(1)) auto
qed

lemma ids_handleDeploy:
  assumes "st \<in> set (handleDeploy clk rej s)"
  shows "map id_s (steps st) = map id_s (steps s)"
  using _ _ _ _ assms
proof (rule handleDeploy_preserves[where f = "\<lambda>x. map id_s (steps x)"])
  show "\<forall>x\<in>set (start_reset s). map id_s (steps x) = map id_s (steps s)"
    by (simp add: start_reset_eq Let_def comp_def)
qed (simp_all add: ids_exec_stmt addLog_def)

lemma projectName_handleDeploy:
  assumes "st \<in> set (handleDeploy clk rej s)"
  shows "projectName st = projectName s"
  using _ _ _ _ assms
proof (rule handleDeploy_preserves[where f = projectName])
  show "\<forall>x\<in>set (start_reset s). projectName x = projectName s"
    by (simp add: start_reset_eq Let_def)
qed (simp_all add: projectName_exec_stmt addLog_def)

lemma handleDeploy_running:
  assumes "st \<in> set (butlast (handleDeploy clk rej s))"
  shows "isDeploying st"
proof -
  have nd: "\<not> isDeploying s" using assms by (auto simp: handleDeploy_eq split: if_splits)
  let ?full = "exec_all clk 0 (deploy_body (projectName s)) (last (start_reset s))"
  let ?e = "state_at_exit clk rej s"
  obtain k where k: "handleDeploy clk rej s =
       start_reset s @ take k ?full @ catch_clause clk (k < 36) ?e
       @ [(last (?e # catch_clause clk (k < 36) ?e))\<lparr>isDeploying := False\<rparr>]"
    "?e = last (last (start_reset s) # take k ?full)"
    using handleDeploy_decomp[OF nd, of clk rej] by metis
  have bl: "butlast (handleDeploy clk rej s)
      = start_reset s @ take k ?full @ catch_clause clk (k < 36) ?e"
    unfolding k(1) by (simp add: butlast_append)
  have 1: "\<forall>x\<in>set (start_reset s). isDeploying x"
    by (simp add: start_reset_eq Let_def)
  then have l: "isDeploying (last (start_reset s))"
    by (simp add: start_reset_eq Let_def)
  have 2: "\<forall>x\<in>set (take k ?full). isDeploying x"
    using exec_all_preserves[of isDeploying _ clk 0 _ "last (start_reset s)", OF isDeploying_exec_stmt] l
    by (auto dest!: in_set_takeD)
  have "?e \<in> set (last (start_reset s) # take k ?full)"
    unfolding k(2) by (rule last_in_set) simp
  then have 3: "isDeploying ?e"
    using l 2 by auto
  then have 4: "\<forall>x\<in>set (catch_clause clk (k < 36) ?e). isDeploying x"
    by (simp add: catch_clause_def addLog_def)
  show ?thesis
    using assms 1 2 4 unfolding bl by auto
qed

lemma handleDeploy_cover:
  assumes "st \<in> set (handleDeploy clk rej s)"
  shows "\<not> isDeploying s"
    and "st \<in> set (butlast (handleDeploy clk rej s)) \<or> st = final_state clk rej s"
proof -
  show nd: "\<not> isDeploying s" using assms by (auto simp: handleDeploy_eq split: if_splits)
  have ne: "handleDeploy clk rej s \<noteq> []" using assms by auto
  then have "final_state clk rej s = last (handleDeploy clk rej s)"
    by (simp add: final_state_def)
  then show "st \<in> set (butlast (handleDeploy clk rej s)) \<or> st = final_state clk rej s"
    using assms ne by (metis append_butlast_last_id in_set_conv_decomp_last rotate1.simps(2) set_ConsD set_rotate1)
qed

subsection \<open>The table is the run\<close>

lemma stage_statuses_eval:
  "stage_statuses 0 = [idle, idle, idle, idle, idle]"
  "stage_statuses 1 = [loading, idle, idle, idle, idle]"
  "stage_statuses (Suc 0) = [loading, idle, idle, idle, idle]"
  "stage_statuses 2 = [success, idle, idle, idle, idle]"
  "stage_statuses 3 = [success, loading, idle, idle, idle]"
  "stage_statuses 4 = [success, success, idle, idle, idle]"
  "stage_statuses 5 = [success, success, loading, idle, idle]"
  "stage_statuses 6 = [success, success, success, idle, idle]"
  "stage_statuses 7 = [success, success, success, loading, idle]"
  "stage_statuses 8 = [success, success, success, success, idle]"
  "stage_statuses 9 = [success, success, success, success, loading]"
  "stage_statuses 10 = [success, success, success, success, success]"
  by code_simp+

lemma replicate_small:
  "replicate 2 x = [x, x]" "replicate 3 x = [x, x, x]" "replicate 4 x = [x, x, x, x]"
  "replicate 5 x = [x, x, x, x, x]"
  by (simp_all add: eval_nat_numeral)

lemmas table_defs = run_views_def body_views_def body_progress_def body_kinds_def Let_def

lemma has_registry_steps:
  assumes "has_registry s"
  obtains a b c d e where "steps s = [a, b, c, d, e]" "id_s a = ''validate''"
    "id_s b = ''github''" "id_s c = ''push''" "id_s d = ''vercel''" "id_s e = ''live''"
  using assms unfolding has_registry_def by (auto simp: map_eq_Cons_conv)

lemma body_views_exec:
  assumes "has_registry s"
  shows "map view (exec_all clk 0 (deploy_body pn) (last (start_reset s))) = body_views pn"
proof -
  obtain a b c d e where st: "steps s = [a, b, c, d, e]" "id_s a = ''validate''"
    "id_s b = ''github''" "id_s c = ''push''" "id_s d = ''vercel''" "id_s e = ''live''"
    using assms by (rule has_registry_steps)
  show ?thesis
    unfolding body_views_def body_progress_def body_kinds_def
    by (simp add: stage_statuses_eval deploy_body_def start_reset_eq Let_def view_def
          updateStep_def addLog_def st)
qed

lemma view_addLog:
  "view (addLog now msg ty s) = (fst (view s), fst (snd (view s)) @ [ty], snd (snd (view s)))"
  by (simp add: view_def addLog_def)

lemma view_isDeploying: "view (s\<lparr>isDeploying := b\<rparr>) = view s"
  by (simp add: view_def)

lemma view_reset: "has_registry s \<Longrightarrow> view (last (start_reset s)) = (stage_statuses 0, [], None)"
  by (erule has_registry_steps) (simp add: start_reset_eq Let_def view_def stage_statuses_eval)

lemma handleDeploy_views:
  assumes "has_registry s" "\<not> isDeploying s"
  obtains k where "k \<in> set [2, 4, 9, 11, 16, 19, 24, 27, 32, 36]"
    "thrown clk rej s = (k < 36)" "k < 36 \<longrightarrow> rej k"
    "map view (run_states clk rej s) = run_views (projectName s) k"
    "view (state_at_exit clk rej s)
       = last ((stage_statuses 0, [], None) # take k (body_views (projectName s)))"
    "view (final_state clk rej s) = last (run_views (projectName s) k)"
proof -
  let ?full = "exec_all clk 0 (deploy_body (projectName s)) (last (start_reset s))"
  let ?e = "state_at_exit clk rej s"
  obtain k where k: "k \<in> set [2, 4, 9, 11, 16, 19, 24, 27, 32, 36]"
    "thrown clk rej s = (k < 36)" "k < 36 \<longrightarrow> rej k"
    "run_states clk rej s = (last (start_reset s) # take k ?full)
       @ catch_clause clk (k < 36) ?e
       @ [(last (?e # catch_clause clk (k < 36) ?e))\<lparr>isDeploying := False\<rparr>]"
    "?e = last (last (start_reset s) # take k ?full)"
    using handleDeploy_decomp[OF assms(2), of clk rej] by metis
  have v: "map view (take k ?full) = take k (body_views (projectName s))"
    by (simp add: take_map[symmetric] body_views_exec[OF assms(1)])
  define V where "V = last ((stage_statuses 0, [], None) # take k (body_views (projectName s)))"
  have vex: "view ?e = V"
  proof -
    have "view (last (last (start_reset s) # take k ?full))
        = last (map view (last (start_reset s) # take k ?full))"
      by (rule last_map[symmetric]) simp
    then show ?thesis
      unfolding k(5) V_def by (simp only: list.map v view_reset[OF assms(1)])
  qed
  have rv: "map view (run_states clk rej s) = run_views (projectName s) k"
    unfolding k(4) run_views_def Let_def V_def[symmetric]
    by (simp add: v view_reset[OF assms(1)] vex catch_clause_def view_addLog view_isDeploying)
  have "view (final_state clk rej s) = last (map view (run_states clk rej s))"
    using handleDeploy_final(1,2)[OF assms(2), of clk rej] by (simp add: last_map)
  then have "view (final_state clk rej s) = last (run_views (projectName s) k)"
    by (simp only: rv)
  then show ?thesis using k(1,2,3) rv vex that unfolding V_def by blast
qed

lemma run_states_view:
  assumes "map view (run_states clk rej s) = run_views pn k" "st \<in> set (run_states clk rej s)"
  shows "view st \<in> set (run_views pn k)"
  using assms(2) unfolding assms(1)[symmetric] by simp

subsection \<open>Observations read off the view\<close>

lemma statuses_view: "statuses s = fst (view s)"
  by (simp add: statuses_def view_def)

lemma findIndex_map: "findIndex P (map f xs) = findIndex (P \<circ> f) xs"
  by (induction xs) auto

lemma currentStepIndex_view: "currentStepIndex s = findIndex (\<lambda>x. x = loading) (fst (view s))"
  by (simp add: currentStepIndex_def view_def findIndex_map comp_def)

lemma count_status_view: "count_status x s = length (filter (\<lambda>y. y = x) (fst (view s)))"
  by (simp add: count_status_def view_def filter_map comp_def)

lemma all_success_view:
  "(\<forall>x\<in>set (steps s). status x = success) \<longleftrightarrow> (\<forall>y\<in>set (fst (view s)). y = success)"
  by (simp add: view_def)

lemma terminal_view:
  "(\<exists>x\<in>set (steps s). status x = success \<or> status x = error)
     \<longleftrightarrow> (\<exists>y\<in>set (fst (view s)). y = success \<or> y = error)"
  by (simp add: view_def)

lemma deployedUrl_view: "deployedUrl s = snd (snd (view s))"
  by (simp add: view_def)

lemma logs_empty_view: "logs s = [] \<longleftrightarrow> fst (snd (view s)) = []"
  by (simp add: view_def)

subsection \<open>Facts of the table\<close>

lemma run_views_one_loading:
  assumes "k \<in> set [2, 4, 9, 11, 16, 19, 24, 27, 32, 36]" "v \<in> set (run_views pn k)"
  shows "length (filter (\<lambda>x. x = loading) (fst v)) \<le> 1 \<and> error \<notin> set (fst v)"
  using assms(1)
  apply (rule run_views_cases)
  using assms(2) by (auto simp: table_defs stage_statuses_eval)

lemma run_views_thrown:
  assumes "k \<in> set [2, 4, 9, 11, 16, 19, 24, 27, 32, 36]" "k < 36"
  shows "\<exists>i<5. findIndex (\<lambda>x. x = loading) (fst (last ((stage_statuses 0, [], None) # take k (body_views pn)))) = Some i
      \<and> findIndex (\<lambda>x. x = loading) (fst (last (run_views pn k))) = Some i
      \<and> fst (last (run_views pn k)) = replicate i success @ loading # replicate (4 - i) idle
      \<and> (\<forall>v\<in>set (run_views pn k). drop (Suc i) (fst v) = replicate (4 - i) idle)
      \<and> filter (\<lambda>t. t = error_log) (fst (snd (last (run_views pn k)))) = [error_log]
      \<and> fst (snd (last ((stage_statuses 0, [], None) # take k (body_views pn)))) @ [error_log] = fst (snd (last (run_views pn k)))
      \<and> snd (snd (last (run_views pn k))) = None"
  using assms(1)
proof (rule run_views_cases)
  assume "k = 2" then show ?thesis
    by (intro exI[of _ 0]) (simp add: table_defs stage_statuses_eval replicate_small)
next
  assume "k = 4" then show ?thesis
    by (intro exI[of _ 0]) (simp add: table_defs stage_statuses_eval replicate_small)
next
  assume "k = 9" then show ?thesis
    by (intro exI[of _ 1]) (simp add: table_defs stage_statuses_eval replicate_small)
next
  assume "k = 11" then show ?thesis
    by (intro exI[of _ 1]) (simp add: table_defs stage_statuses_eval replicate_small)
next
  assume "k = 16" then show ?thesis
    by (intro exI[of _ 2]) (simp add: table_defs stage_statuses_eval replicate_small)
next
  assume "k = 19" then show ?thesis
    by (intro exI[of _ 2]) (simp add: table_defs stage_statuses_eval replicate_small)
next
  assume "k = 24" then show ?thesis
    by (intro exI[of _ 3]) (simp add: table_defs stage_statuses_eval replicate_small)
next
  assume "k = 27" then show ?thesis
    by (intro exI[of _ 3]) (simp add: table_defs stage_statuses_eval replicate_small)
next
  assume "k = 32" then show ?thesis
    by (intro exI[of _ 4]) (simp add: table_defs stage_statuses_eval replicate_small)
next
  assume "k = 36" then show ?thesis using assms(2) by simp
qed

subsection \<open>The log only grows\<close>

lemma logs_exec_stmt: "prefix (logs s) (logs (exec_stmt now c s))"
  by (cases c) (simp_all add: updateStep_def addLog_def)

lemma logs_exec_all:
  "sorted_wrt (\<lambda>a b. prefix (logs a) (logs b)) (s # exec_all clk pc cs s)"
proof (induction cs arbitrary: pc s)
  case Nil
  then show ?case by simp
next
  case (Cons c cs)
  let ?s' = "exec_stmt (clk pc) c s"
  have ih: "sorted_wrt (\<lambda>a b. prefix (logs a) (logs b)) (?s' # exec_all clk (Suc pc) cs ?s')"
    by (rule Cons.IH)
  have "prefix (logs s) (logs ?s')" by (rule logs_exec_stmt)
  moreover have "\<forall>y\<in>set (exec_all clk (Suc pc) cs ?s'). prefix (logs ?s') (logs y)"
    using ih by simp
  ultimately have "\<forall>y\<in>set (?s' # exec_all clk (Suc pc) cs ?s'). prefix (logs s) (logs y)"
    by (auto intro: prefix_order.trans)
  then show ?case using ih by (simp add: Let_def)
qed

lemma sorted_wrt_snoc:
  assumes "sorted_wrt R xs" "\<forall>x\<in>set xs. R x y"
  shows "sorted_wrt R (xs @ [y])"
  using assms by (simp add: sorted_wrt_append)

lemma sorted_wrt_last:
  assumes "sorted_wrt R xs" "xs \<noteq> []" "\<And>x. R x x"
  shows "\<forall>x\<in>set xs. R x (last xs)"
proof -
  have "sorted_wrt R (butlast xs @ [last xs])" using assms(1,2) by simp
  then have "\<forall>x\<in>set (butlast xs). R x (last xs)"
    by (simp add: sorted_wrt_append)
  moreover have "set xs = insert (last xs) (set (butlast xs))"
    using assms(2) by (metis append_butlast_last_id list.set(1,2) set_append Un_insert_right sup_bot.right_neutral)
  ultimately show ?thesis using assms(3) by auto
qed

lemma logs_run_states:
  assumes "\<not> isDeploying s"
  shows "sorted_wrt (\<lambda>a b. prefix (logs a) (logs b)) (run_states clk rej s)"
    and "logs (hd (run_states clk rej s)) = []"
proof -
  let ?R = "\<lambda>a b. prefix (logs a) (logs b)"
  let ?full = "exec_all clk 0 (deploy_body (projectName s)) (last (start_reset s))"
  let ?e = "state_at_exit clk rej s"
  let ?s4 = "last (start_reset s)"
  obtain k where k: "run_states clk rej s = (?s4 # take k ?full) @ catch_clause clk (k < 36) ?e
       @ [(last (?e # catch_clause clk (k < 36) ?e))\<lparr>isDeploying := False\<rparr>]"
    "?e = last (?s4 # take k ?full)"
    using handleDeploy_decomp[OF assms, of clk rej] by metis
  show "logs (hd (run_states clk rej s)) = []"
    unfolding k(1) by (simp add: start_reset_eq Let_def)
  have a: "sorted_wrt ?R (?s4 # take k ?full)"
    using sorted_wrt_take[OF logs_exec_all[of ?s4 clk 0 "deploy_body (projectName s)"], of "Suc k"]
    by simp
  have b: "\<forall>x\<in>set (?s4 # take k ?full). ?R x ?e"
    unfolding k(2) by (rule sorted_wrt_last[OF a]) simp_all
  show "sorted_wrt ?R (run_states clk rej s)"
  proof (cases "k < 36")
    case True
    let ?c = "addLog (clk 36) ''An unexpected error occurred during deployment.'' error_log ?e"
    have c: "?R ?e ?c" by (simp add: addLog_def)
    have c1: "\<forall>x\<in>set (?s4 # take k ?full). ?R x ?c"
      using b c by (auto intro: prefix_order.trans)
    have s1: "sorted_wrt ?R ((?s4 # take k ?full) @ [?c])"
      by (rule sorted_wrt_snoc[OF a c1])
    have c2: "\<forall>x\<in>set ((?s4 # take k ?full) @ [?c]). ?R x (?c\<lparr>isDeploying := False\<rparr>)"
      using c1 by auto
    have "sorted_wrt ?R (((?s4 # take k ?full) @ [?c]) @ [?c\<lparr>isDeploying := False\<rparr>])"
      by (rule sorted_wrt_snoc[OF s1 c2])
    then show ?thesis unfolding k(1) using True by (simp add: catch_clause_def)
  next
    case False
    have c3: "\<forall>x\<in>set (?s4 # take k ?full). ?R x (?e\<lparr>isDeploying := False\<rparr>)"
      using b by auto
    have "sorted_wrt ?R ((?s4 # take k ?full) @ [?e\<lparr>isDeploying := False\<rparr>])"
      by (rule sorted_wrt_snoc[OF a c3])
    then show ?thesis unfolding k(1) using False by (simp add: catch_clause_def)
  qed
qed

section \<open>Lemmas on the normalization\<close>

text \<open>
  \<open>runs\<close> cuts a list into its maximal runs: the pieces give the list back, each piece is
  not empty and of one kind, and neighbouring pieces are of different kinds.
\<close>

lemma concat_runs: "concat (runs P xs) = xs"
  by (induction P xs rule: runs.induct) simp_all

lemma runs_homogeneous: "r \<in> set (runs P xs) \<Longrightarrow> r \<noteq> [] \<and> (\<forall>y\<in>set r. P y = P (hd r))"
proof (induction P xs rule: runs.induct)
  case (1 P)
  then show ?case by simp
next
  case (2 P x xs)
  from "2.prems" have "r = x # takeWhile (\<lambda>y. P y = P x) xs
      \<or> r \<in> set (runs P (dropWhile (\<lambda>y. P y = P x) xs))"
    by simp
  then show ?case
  proof
    assume r: "r = x # takeWhile (\<lambda>y. P y = P x) xs"
    have tw: "P y = P x" if "y \<in> set (takeWhile (\<lambda>y. P y = P x) xs)" for y
      using set_takeWhileD[OF that] by blast
    show ?thesis
    proof (intro conjI ballI)
      show "r \<noteq> []" unfolding r by simp
    next
      fix y assume "y \<in> set r"
      then have "y = x \<or> y \<in> set (takeWhile (\<lambda>y. P y = P x) xs)"
        unfolding r by simp
      then show "P y = P (hd r)"
      proof
        assume "y = x"
        then show ?thesis unfolding r by simp
      next
        assume "y \<in> set (takeWhile (\<lambda>y. P y = P x) xs)"
        then have "P y = P x" by (rule tw)
        then show ?thesis unfolding r by simp
      qed
    qed
  next
    assume "r \<in> set (runs P (dropWhile (\<lambda>y. P y = P x) xs))"
    then show ?thesis by (rule "2.IH")
  qed
qed

lemma runs_alternate: "distinct_adj (map (\<lambda>r. P (hd r)) (runs P xs))"
proof (induction P xs rule: runs.induct)
  case (1 P)
  then show ?case by simp
next
  case (2 P x xs)
  define rest where "rest = dropWhile (\<lambda>y. P y = P x) xs"
  have ih: "distinct_adj (map (\<lambda>r. P (hd r)) (runs P rest))"
    unfolding rest_def by (rule "2.IH")
  have unf: "runs P (x # xs) = (x # takeWhile (\<lambda>y. P y = P x) xs) # runs P rest"
    by (simp add: rest_def)
  show ?case
  proof (cases rest)
    case Nil
    then show ?thesis unfolding unf by simp
  next
    case (Cons y ys)
    have "rest \<noteq> []" using Cons by simp
    then have "\<not> (P (hd rest) = P x)"
      unfolding rest_def by (rule hd_dropWhile)
    then have "P x \<noteq> P y" using Cons by auto
    then show ?thesis using ih unfolding unf Cons by simp
  qed
qed

lemma spec_skips_text:
  "concat (map (\<lambda>r. if is_space (hd r) then ''-'' else r) (runs is_space cs))
     = takeWhile (\<lambda>y. \<not> is_space y) cs
       @ concat (map (\<lambda>r. if is_space (hd r) then ''-'' else r)
           (runs is_space (dropWhile (\<lambda>y. \<not> is_space y) cs)))"
  by (cases cs) auto

lemma replace_spaces_runs:
  "replace_spaces xs = concat (map (\<lambda>r. if is_space (hd r) then ''-'' else r) (runs is_space xs))"
proof (induction xs rule: replace_spaces.induct)
  case 1
  then show ?case by simp
next
  case (2 c cs)
  show ?case
  proof (cases "is_space c")
    case True
    then show ?thesis using "2.IH"(1) by simp
  next
    case False
    then show ?thesis using "2.IH"(2) spec_skips_text[of cs] by simp
  qed
qed

lemma toLowerCase_char_idem: "toLowerCase_char (toLowerCase_char c) = toLowerCase_char c"
proof -
  let ?n = "of_char c :: nat"
  show ?thesis
  proof (cases "(65 \<le> ?n \<and> ?n \<le> 90) \<or> (192 \<le> ?n \<and> ?n \<le> 214) \<or> (216 \<le> ?n \<and> ?n \<le> 222)")
    case True
    then have 1: "toLowerCase_char c = char_of (?n + 32)"
      by (simp add: toLowerCase_char_def Let_def)
    have "?n + 32 < 256" using True by arith
    then have 2: "(of_char (char_of (?n + 32) :: char) :: nat) = ?n + 32"
      by (simp add: of_char_of)
    have 3: "\<not> ((65 \<le> ?n + 32 \<and> ?n + 32 \<le> 90) \<or> (192 \<le> ?n + 32 \<and> ?n + 32 \<le> 214)
        \<or> (216 \<le> ?n + 32 \<and> ?n + 32 \<le> 222))"
      using True by arith
    have "toLowerCase_char (char_of (?n + 32)) = char_of (?n + 32)"
      unfolding toLowerCase_char_def[of "char_of (?n + 32)"] Let_def 2 using 3 by (rule if_not_P)
    then show ?thesis unfolding 1 .
  next
    case False
    then have "toLowerCase_char c = c"
      unfolding toLowerCase_char_def Let_def by (rule if_not_P)
    then show ?thesis by simp
  qed
qed

lemma replace_spaces_set:
  "set (replace_spaces xs) \<subseteq> insert CHR ''-'' {c \<in> set xs. \<not> is_space c}"
proof (induction xs rule: replace_spaces.induct)
  case 1
  then show ?case by simp
next
  case (2 c cs)
  then show ?case by (auto dest: set_dropWhileD)
qed

lemma replace_spaces_id: "\<forall>c\<in>set xs. \<not> is_space c \<Longrightarrow> replace_spaces xs = xs"
  by (induction xs) simp_all

lemma normalize_no_space: "c \<in> set (normalizeName raw) \<Longrightarrow> \<not> is_space c"
proof -
  assume "c \<in> set (normalizeName raw)"
  then have "c = CHR ''-'' \<or> \<not> is_space c"
    using replace_spaces_set[of "toLowerCase raw"] by (auto simp: normalizeName_def)
  then show ?thesis by (auto simp: is_space_def)
qed

lemma normalize_lower: "c \<in> set (normalizeName raw) \<Longrightarrow> toLowerCase_char c = c"
proof -
  assume "c \<in> set (normalizeName raw)"
  then have "c = CHR ''-'' \<or> c \<in> set (toLowerCase raw)"
    using replace_spaces_set[of "toLowerCase raw"] by (auto simp: normalizeName_def)
  then show ?thesis
    by (auto simp: toLowerCase_def toLowerCase_char_idem) (simp add: toLowerCase_char_def)
qed

lemma normalize_idem: "normalizeName (normalizeName raw) = normalizeName raw"
proof -
  have "toLowerCase (normalizeName raw) = normalizeName raw"
    unfolding toLowerCase_def by (rule map_idI) (rule normalize_lower)
  then show ?thesis
    using normalize_no_space[of _ raw] by (simp add: normalizeName_def[of "normalizeName raw"] replace_spaces_id)
qed

lemma staircase_order:
  assumes "xs \<in> set [stage_statuses 0, stage_statuses 1, stage_statuses 2, stage_statuses 3,
      stage_statuses 4, stage_statuses 5, stage_statuses 6, stage_statuses 7, stage_statuses 8,
      stage_statuses 9, stage_statuses 10]" "i < j" "j < 5" "xs ! j \<noteq> idle"
  shows "xs ! i = success"
proof -
  have "i = 0 \<and> j = 1 \<or> i = 0 \<and> j = 2 \<or> i = 1 \<and> j = 2 \<or> i = 0 \<and> j = 3 \<or> i = 1 \<and> j = 3
      \<or> i = 2 \<and> j = 3 \<or> i = 0 \<and> j = 4 \<or> i = 1 \<and> j = 4 \<or> i = 2 \<and> j = 4 \<or> i = 3 \<and> j = 4"
    using assms(2,3) by arith
  then show ?thesis
    using assms(1,4) by (auto simp: stage_statuses_eval)
qed

lemma run_views_rows:
  assumes "k \<in> set [2, 4, 9, 11, 16, 19, 24, 27, 32, 36]" "v \<in> set (run_views pn k)"
  shows "fst v \<in> set [stage_statuses 0, stage_statuses 1, stage_statuses 2, stage_statuses 3,
      stage_statuses 4, stage_statuses 5, stage_statuses 6, stage_statuses 7, stage_statuses 8,
      stage_statuses 9, stage_statuses 10]"
  using assms(1)
  apply (rule run_views_cases)
  using assms(2) by (auto simp: table_defs)

lemma run_views_transitions_all:
  "list_all (\<lambda>k. list_all (\<lambda>j. remdups_adj (map (\<lambda>v. fst v ! j) (run_views pn k))
           \<in> set [[idle], [idle, loading], [idle, loading, success]]) [0, 1, 2, 3, 4])
     [2, 4, 9, 11, 16, 19, 24, 27, 32, 36]"
  by code_simp

lemma run_views_transitions:
  assumes "k \<in> set [2, 4, 9, 11, 16, 19, 24, 27, 32, 36]" "j < 5"
  shows "remdups_adj (map (\<lambda>v. fst v ! j) (run_views pn k))
           \<in> {[idle], [idle, loading], [idle, loading, success]}"
proof -
  have j: "j \<in> set [0, 1, 2, 3, 4]"
    using assms(2) by (simp add: less_Suc_eq eval_nat_numeral) 
  show ?thesis
    using run_views_transitions_all[of pn] assms(1) j unfolding list_all_iff by fastforce
qed

lemma run_views_logged:
  assumes "k \<in> set [2, 4, 9, 11, 16, 19, 24, 27, 32, 36]" "v \<in> set (run_views pn k)"
    "\<exists>y\<in>set (fst v). y = success \<or> y = error"
  shows "fst (snd v) \<noteq> []"
  using assms(1)
  apply (rule run_views_cases)
  using assms(2,3) by (auto simp: table_defs stage_statuses_eval)

lemma run_views_completed:
  "snd (snd (last (run_views pn 36))) = Some (''https://'' @ pn @ ''.vercel.app'')"
  "\<forall>v\<in>set (run_views pn 36). snd (snd v) \<noteq> None \<longrightarrow> (\<forall>y\<in>set (fst v). y = success)"
  "fst (last (run_views pn 36)) = [success, success, success, success, success]"
  "last (butlast (run_views pn 36)) = last (run_views pn 36)"
  by (auto simp: table_defs stage_statuses_eval)

subsection \<open>Reachable states\<close>

lemma final_reachable:
  assumes "reachable s" "\<not> isDeploying s"
  shows "reachable (final_state clk rej s)"
proof -
  have "final_state clk rej s \<in> set (handleDeploy clk rej s)"
    using handleDeploy_final(3)[OF assms(2), of clk rej]
    by (simp add: final_state_def)
  then show ?thesis by (rule reachable.deploy[OF assms(1)])
qed

lemma normalize_initial: "normalizeName ''my-awesome-app'' = ''my-awesome-app''"
  by code_simp

lemma reachable_invariant:
  "reachable s \<Longrightarrow> has_registry s \<and> count_status loading s \<le> 1 \<and> error \<notin> set (statuses s)
     \<and> normalizeName (projectName s) = projectName s"
proof (induction rule: reachable.induct)
  case init
  show ?case
    by (simp add: has_registry_def count_status_def statuses_def initial_state_def
          initial_steps_def normalize_initial)
next
  case (edit s raw)
  then show ?case
    by (simp add: has_registry_def count_status_def statuses_def onChange_def normalize_idem)
next
  case (deploy s st clk rej)
  have nd: "\<not> isDeploying s"
    using deploy.hyps(2) by (rule handleDeploy_cover(1))
  have reg: "has_registry s" using deploy.IH by simp
  have 1: "has_registry st"
    using ids_handleDeploy[OF deploy.hyps(2)] reg by (simp add: has_registry_def)
  have 2: "normalizeName (projectName st) = projectName st"
    using projectName_handleDeploy[OF deploy.hyps(2)] deploy.IH by simp
  obtain k where k: "k \<in> set [2, 4, 9, 11, 16, 19, 24, 27, 32, 36]"
    "map view (run_states clk rej s) = run_views (projectName s) k"
    using handleDeploy_views[OF reg nd, of clk rej] by metis
  obtain rest where d: "handleDeploy clk rej s = start_reset s @ rest"
    using handleDeploy_decomp[OF nd, of clk rej] by metis
  have "st \<in> set (take 3 (handleDeploy clk rej s)) \<or> st \<in> set (run_states clk rej s)"
    using deploy.hyps(2) unfolding run_states_def
    by (metis Un_iff append_take_drop_id set_append)
  then have "count_status loading st \<le> 1 \<and> error \<notin> set (statuses st)"
  proof
    assume "st \<in> set (take 3 (handleDeploy clk rej s))"
    then have "steps st = steps s"
      unfolding d by (auto simp: start_reset_eq Let_def)
    then show ?thesis using deploy.IH by (simp add: count_status_def statuses_def)
  next
    assume "st \<in> set (run_states clk rej s)"
    then have "view st \<in> set (run_views (projectName s) k)"
      by (rule run_states_view[OF k(2)])
    then show ?thesis
      using run_views_one_loading[OF k(1)] by (simp add: count_status_view statuses_view)
  qed
  then show ?case using 1 2 by simp
qed

lemma reachable_order:
  "reachable s \<Longrightarrow> \<forall>i j. i < j \<and> j < 5 \<and> statuses s ! j \<noteq> idle \<longrightarrow> statuses s ! i = success"
proof (induction rule: reachable.induct)
  case init
  have "statuses initial_state = stage_statuses 0"
    by (simp add: statuses_def initial_state_def initial_steps_def stage_statuses_eval)
  then show ?case using staircase_order[of "stage_statuses 0"] by auto
next
  case (edit s raw)
  then show ?case by (simp add: statuses_def onChange_def)
next
  case (deploy s st clk rej)
  have nd: "\<not> isDeploying s"
    using deploy.hyps(2) by (rule handleDeploy_cover(1))
  have reg: "has_registry s" using reachable_invariant[OF deploy.hyps(1)] by simp
  obtain k where k: "k \<in> set [2, 4, 9, 11, 16, 19, 24, 27, 32, 36]"
    "map view (run_states clk rej s) = run_views (projectName s) k"
    using handleDeploy_views[OF reg nd, of clk rej] by metis
  obtain rest where d: "handleDeploy clk rej s = start_reset s @ rest"
    using handleDeploy_decomp[OF nd, of clk rej] by metis
  have "st \<in> set (take 3 (handleDeploy clk rej s)) \<or> st \<in> set (run_states clk rej s)"
    using deploy.hyps(2) unfolding run_states_def
    by (metis Un_iff append_take_drop_id set_append)
  then show ?case
  proof
    assume "st \<in> set (take 3 (handleDeploy clk rej s))"
    then have "steps st = steps s"
      unfolding d by (auto simp: start_reset_eq Let_def)
    then show ?thesis using deploy.IH by (simp add: statuses_def)
  next
    assume "st \<in> set (run_states clk rej s)"
    then have "view st \<in> set (run_views (projectName s) k)"
      by (rule run_states_view[OF k(2)])
    then show ?thesis
      using staircase_order[OF run_views_rows[OF k(1)]] unfolding statuses_view by blast
  qed
qed

subsection \<open>Concrete runs\<close>

lemma has_registry_initial: "has_registry initial_state"
  by (simp add: has_registry_def initial_state_def initial_steps_def)

lemma idle_initial: "\<not> isDeploying initial_state"
  by (simp add: initial_state_def)

lemma name_initial: "projectName initial_state = ''my-awesome-app''"
  by (simp add: initial_state_def)

lemma thrown_github: "thrown noon (reject_at 11) initial_state"
  by (simp add: thrown_def run_outcome_def noon_def reject_at_def initial_state_def
        initial_steps_def start_reset_eq deploy_body_def Let_def)

lemma completed_run:
  assumes "has_registry s" "\<not> isDeploying s"
  shows "\<not> thrown clk never s"
    and "map view (run_states clk never s) = run_views (projectName s) 36"
    and "view (final_state clk never s) = last (run_views (projectName s) 36)"
proof -
  obtain k where k: "thrown clk never s = (k < 36)" "k < 36 \<longrightarrow> never k"
    "k \<in> set [2, 4, 9, 11, 16, 19, 24, 27, 32, 36]"
    "map view (run_states clk never s) = run_views (projectName s) k"
    "view (final_state clk never s) = last (run_views (projectName s) k)"
    using handleDeploy_views[OF assms, of clk never] by metis
  have "k = 36" using k(2,3) by (auto simp: never_def)
  then show "\<not> thrown clk never s"
    and "map view (run_states clk never s) = run_views (projectName s) 36"
    and "view (final_state clk never s) = last (run_views (projectName s) 36)"
    using k(1,4,5) by simp_all
qed

lemma all_success_example:
  "\<forall>x\<in>set (steps (final_state noon never initial_state)). status x = success"
  unfolding all_success_view completed_run(3)[OF has_registry_initial idle_initial]
  by (simp add: run_views_completed(3))

section \<open>The claims\<close>

subsection \<open>Completion\<close>

text \<open>
  C2. In a run that ends with all five stages \<open>success\<close>, the result is the URL
  \<open>https://<projectName>.vercel.app\<close> of the project name the run started with; no state of
  the run has a result before all stages are \<open>success\<close>; \<open>isDeploying\<close> is true in every
  state of the handler but the last and false in the last, which differs from the state
  before it, where all stages are already \<open>success\<close>, in \<open>isDeploying\<close> only.
\<close>

theorem all_stages_success_gives_result:
  assumes "has_registry s" "\<not> isDeploying s"
    "\<forall>x\<in>set (steps (final_state clk rej s)). status x = success"
  shows "deployedUrl (final_state clk rej s) = Some (''https://'' @ projectName s @ ''.vercel.app'')
      \<and> (\<forall>st\<in>set (run_states clk rej s).
            deployedUrl st \<noteq> None \<longrightarrow> (\<forall>x\<in>set (steps st). status x = success))
      \<and> (\<forall>st\<in>set (butlast (handleDeploy clk rej s)). isDeploying st)
      \<and> \<not> isDeploying (final_state clk rej s)
      \<and> final_state clk rej s = (last (butlast (handleDeploy clk rej s)))\<lparr>isDeploying := False\<rparr>
      \<and> (\<forall>x\<in>set (steps (last (butlast (handleDeploy clk rej s)))). status x = success)"
proof -
  let ?pn = "projectName s"
  obtain k where k: "k \<in> set [2, 4, 9, 11, 16, 19, 24, 27, 32, 36]"
    "map view (run_states clk rej s) = run_views ?pn k"
    "view (final_state clk rej s) = last (run_views ?pn k)"
    using handleDeploy_views[OF assms(1,2), of clk rej] by metis
  have k36: "k = 36"
  proof (rule ccontr)
    assume "k \<noteq> 36"
    then have lt: "k < 36" using k(1) by auto
    obtain i where "fst (last (run_views ?pn k)) = replicate i success @ loading # replicate (4 - i) idle"
      using run_views_thrown[OF k(1) lt, of ?pn] by blast
    then have "loading \<in> set (fst (view (final_state clk rej s)))"
      by (simp add: k(3))
    then show False using assms(3) by (auto simp: all_success_view)
  qed
  have 1: "deployedUrl (final_state clk rej s) = Some (''https://'' @ ?pn @ ''.vercel.app'')"
    by (simp only: deployedUrl_view k(3) k36 run_views_completed(1))
  have 2: "\<forall>st\<in>set (run_states clk rej s).
            deployedUrl st \<noteq> None \<longrightarrow> (\<forall>x\<in>set (steps st). status x = success)"
    using run_states_view[OF k(2)] run_views_completed(2)[of ?pn]
    unfolding k36 deployedUrl_view all_success_view by blast
  have 3: "\<forall>st\<in>set (butlast (handleDeploy clk rej s)). isDeploying st"
    using handleDeploy_running by blast
  have 4: "\<not> isDeploying (final_state clk rej s)"
    by (rule handleDeploy_final(4)[OF assms(2)])
  have 5: "final_state clk rej s = (last (butlast (handleDeploy clk rej s)))\<lparr>isDeploying := False\<rparr>"
    by (rule handleDeploy_final(6)[OF assms(2)])
  have "steps (final_state clk rej s) = steps (last (butlast (handleDeploy clk rej s)))"
    by (subst 5) simp
  then have 6: "\<forall>x\<in>set (steps (last (butlast (handleDeploy clk rej s)))). status x = success"
    using assms(3) by simp
  show ?thesis using 1 2 3 4 5 6 by blast
qed

theorem all_stages_success_gives_result_witness:
  "has_registry initial_state \<and> \<not> isDeploying initial_state
   \<and> statuses (final_state noon never initial_state) = [success, success, success, success, success]
   \<and> deployedUrl (final_state noon never initial_state) = Some ''https://my-awesome-app.vercel.app''
   \<and> list_all (\<lambda>st. deployedUrl st \<noteq> None \<longrightarrow> (\<forall>x\<in>set (steps st). status x = success))
         (run_states noon never initial_state)
   \<and> list_all isDeploying (butlast (handleDeploy noon never initial_state))
   \<and> \<not> isDeploying (final_state noon never initial_state)
   \<and> final_state noon never initial_state
       = (last (butlast (handleDeploy noon never initial_state)))\<lparr>isDeploying := False\<rparr>"
proof -
  note run = all_stages_success_gives_result[OF has_registry_initial idle_initial all_success_example]
  have u: "''https://'' @ projectName initial_state @ ''.vercel.app'' = ''https://my-awesome-app.vercel.app''"
    by (simp add: name_initial)
  have st: "statuses (final_state noon never initial_state) = [success, success, success, success, success]"
    unfolding statuses_view completed_run(3)[OF has_registry_initial idle_initial]
    by (simp add: run_views_completed(3))
  show ?thesis
    unfolding list_all_iff using run u st has_registry_initial idle_initial by metis
qed

subsection \<open>Re-entrancy guard\<close>



subsection \<open>One stage at a time\<close>

text \<open>
  C4. In every reachable state at most one stage has the status \<open>loading\<close>, and a stage
  that is not \<open>idle\<close> has only \<open>success\<close> stages before it: a stage is marked \<open>loading\<close>
  only once the one before it has been marked \<open>success\<close>.
\<close>

theorem at_most_one_stage_loading:
  "reachable s \<Longrightarrow> count_status loading s \<le> 1
     \<and> (\<forall>i j. i < j \<and> j < 5 \<and> statuses s ! j \<noteq> idle \<longrightarrow> statuses s ! i = success)"
  using reachable_invariant reachable_order by blast

theorem at_most_one_stage_loading_witness:
  "reachable (final_state noon (reject_at 11) initial_state)
   \<and> count_status loading (final_state noon (reject_at 11) initial_state) \<le> 1
   \<and> \<not> (\<exists>i j. i < j \<and> j < 5
            \<and> statuses (final_state noon (reject_at 11) initial_state) ! j \<noteq> idle
            \<and> statuses (final_state noon (reject_at 11) initial_state) ! i \<noteq> success)"
proof -
  have r: "reachable (final_state noon (reject_at 11) initial_state)"
    by (rule final_reachable[OF reachable.init idle_initial])
  show ?thesis using at_most_one_stage_loading[OF r] r by blast
qed

subsection \<open>Stages at the end of a run\<close>

text \<open>
  C5. A run of the program, in which no awaited timer rejects, ends with \<open>isDeploying\<close>
  false and with five stages, each of them \<open>success\<close>, \<open>error\<close> or \<open>idle\<close>: the stages with
  one of these statuses are five together, and no stage is left \<open>loading\<close>.
\<close>

theorem stage_count_at_run_end:
  assumes "has_registry s" "\<not> isDeploying s"
  shows "\<not> isDeploying (final_state clk never s) \<and> length (steps (final_state clk never s)) = 5
      \<and> count_status success (final_state clk never s)
          + count_status error (final_state clk never s)
          + count_status idle (final_state clk never s) = 5
      \<and> count_status loading (final_state clk never s) = 0"
proof -
  let ?f = "final_state clk never s"
  have v: "fst (view ?f) = [success, success, success, success, success]"
    by (simp only: completed_run(3)[OF assms] run_views_completed(3))
  have 1: "\<not> isDeploying ?f"
    by (rule handleDeploy_final(4)[OF assms(2)])
  have len: "length (steps ?f) = length (fst (view ?f))"
    by (simp add: view_def)
  show ?thesis
    using 1 by (simp add: len count_status_view v)
qed

theorem stage_count_at_run_end_witness:
  "has_registry initial_state \<and> \<not> isDeploying initial_state
   \<and> \<not> isDeploying (final_state noon never initial_state)
   \<and> length (steps (final_state noon never initial_state)) = 5
   \<and> count_status success (final_state noon never initial_state)
       + count_status error (final_state noon never initial_state)
       + count_status idle (final_state noon never initial_state) = 5
   \<and> count_status loading (final_state noon never initial_state) = 0"
  using stage_count_at_run_end[OF has_registry_initial idle_initial, of noon]
    has_registry_initial idle_initial
  by blast

subsection \<open>No stage is ever marked \<open>error\<close>\<close>

text \<open>
  C6. In no reachable state does a stage have the status \<open>error\<close>: the statuses are \<open>idle\<close>,
  \<open>loading\<close> and \<open>success\<close>. When an await rejects, the stage that was \<open>loading\<close> at that
  moment is still \<open>loading\<close>, and still the current one, when the run has ended with
  \<open>isDeploying\<close> false.
\<close>

theorem error_status_never_assigned:
  "reachable s \<Longrightarrow>
     set (statuses s) \<subseteq> {idle, loading, success}
     \<and> (\<not> isDeploying s \<and> thrown clk rej s \<longrightarrow>
          (\<exists>i. currentStepIndex (state_at_exit clk rej s) = Some i
             \<and> currentStepIndex (final_state clk rej s) = Some i
             \<and> statuses (final_state clk rej s) ! i = loading)
          \<and> \<not> isDeploying (final_state clk rej s))"
proof -
  assume r: "reachable s"
  have reg: "has_registry s" and ne: "error \<notin> set (statuses s)"
    using reachable_invariant[OF r] by simp_all
  have 1: "set (statuses s) \<subseteq> {idle, loading, success}"
  proof
    fix x assume "x \<in> set (statuses s)"
    then have "x \<noteq> error" using ne by auto
    then show "x \<in> {idle, loading, success}" by (cases x) simp_all
  qed
  have 2: "(\<exists>i. currentStepIndex (state_at_exit clk rej s) = Some i
             \<and> currentStepIndex (final_state clk rej s) = Some i
             \<and> statuses (final_state clk rej s) ! i = loading)
          \<and> \<not> isDeploying (final_state clk rej s)"
    if nd: "\<not> isDeploying s" and th: "thrown clk rej s"
  proof -
    let ?pn = "projectName s"
    obtain k where k: "k \<in> set [2, 4, 9, 11, 16, 19, 24, 27, 32, 36]"
      "thrown clk rej s = (k < 36)"
      "view (state_at_exit clk rej s) = last ((stage_statuses 0, [], None) # take k (body_views ?pn))"
      "view (final_state clk rej s) = last (run_views ?pn k)"
      using handleDeploy_views[OF reg nd, of clk rej] by metis
    have lt: "k < 36" using th k(2) by simp
    obtain i where i:
      "findIndex (\<lambda>x. x = loading) (fst (last ((stage_statuses 0, [], None) # take k (body_views ?pn)))) = Some i"
      "findIndex (\<lambda>x. x = loading) (fst (last (run_views ?pn k))) = Some i"
      "fst (last (run_views ?pn k)) = replicate i success @ loading # replicate (4 - i) idle"
      using run_views_thrown[OF k(1) lt, of ?pn] by blast
    have a: "currentStepIndex (state_at_exit clk rej s) = Some i"
      by (simp only: currentStepIndex_view k(3) i(1))
    have b: "currentStepIndex (final_state clk rej s) = Some i"
      by (simp only: currentStepIndex_view k(4) i(2))
    have c: "statuses (final_state clk rej s) ! i = loading"
      by (simp add: statuses_view k(4) i(3) nth_append)
    show ?thesis
      using a b c handleDeploy_final(4)[OF nd, of clk rej] by blast
  qed
  show ?thesis using 1 2 by blast
qed

theorem error_status_never_assigned_witness:
  "reachable initial_state \<and> \<not> isDeploying initial_state \<and> thrown noon (reject_at 11) initial_state
   \<and> set (statuses initial_state) \<subseteq> {idle, loading, success}
   \<and> (\<exists>i. currentStepIndex (state_at_exit noon (reject_at 11) initial_state) = Some i
         \<and> currentStepIndex (final_state noon (reject_at 11) initial_state) = Some i
         \<and> statuses (final_state noon (reject_at 11) initial_state) ! i = loading)
   \<and> \<not> isDeploying (final_state noon (reject_at 11) initial_state)"
  using error_status_never_assigned[OF reachable.init, of noon "reject_at 11"]
    reachable.init idle_initial thrown_github
  by blast

subsection \<open>Order of the transitions\<close>

text \<open>
  C8. Along a run, from the reset on, the status of each stage goes through
  \<open>idle\<close>, \<open>loading\<close>, \<open>success\<close> in this order, each at most once and none skipped (so no
  stage is entered twice and none reaches a terminal status without having been
  \<open>loading\<close>), and in every state a stage that has left \<open>idle\<close> has only \<open>success\<close> stages
  before it in the registry.
\<close>

theorem stage_transitions_in_order:
  assumes "has_registry s" "\<not> isDeploying s"
  shows "(\<forall>j<5. remdups_adj (map (\<lambda>st. statuses st ! j) (run_states clk rej s))
                 \<in> {[idle], [idle, loading], [idle, loading, success]})
      \<and> (\<forall>st\<in>set (run_states clk rej s).
            \<forall>i j. i < j \<and> j < 5 \<and> statuses st ! j \<noteq> idle \<longrightarrow> statuses st ! i = success)"
proof -
  let ?pn = "projectName s"
  obtain k where k: "k \<in> set [2, 4, 9, 11, 16, 19, 24, 27, 32, 36]"
    "map view (run_states clk rej s) = run_views ?pn k"
    using handleDeploy_views[OF assms(1,2), of clk rej] by metis
  have col: "map (\<lambda>st. statuses st ! j) (run_states clk rej s)
      = map (\<lambda>v. fst v ! j) (run_views ?pn k)" for j
    unfolding k(2)[symmetric] by (simp add: statuses_view comp_def)
  have 1: "\<forall>j<5. remdups_adj (map (\<lambda>st. statuses st ! j) (run_states clk rej s))
                 \<in> {[idle], [idle, loading], [idle, loading, success]}"
    unfolding col using run_views_transitions[OF k(1)] by blast
  have 2: "\<forall>st\<in>set (run_states clk rej s).
            \<forall>i j. i < j \<and> j < 5 \<and> statuses st ! j \<noteq> idle \<longrightarrow> statuses st ! i = success"
    using staircase_order[OF run_views_rows[OF k(1) run_states_view[OF k(2)]]]
    unfolding statuses_view by blast
  show ?thesis using 1 2 by blast
qed

theorem stage_transitions_in_order_witness:
  "has_registry initial_state \<and> \<not> isDeploying initial_state
   \<and> list_all (\<lambda>j. remdups_adj (map (\<lambda>st. statuses st ! j) (run_states noon never initial_state))
                 \<in> {[idle], [idle, loading], [idle, loading, success]}) [0, 1, 2, 3, 4]
   \<and> list_all (\<lambda>st. \<forall>i j. i < j \<and> j < 5 \<and> statuses st ! j \<noteq> idle \<longrightarrow> statuses st ! i = success)
         (run_states noon never initial_state)"
proof -
  note t = stage_transitions_in_order[OF has_registry_initial idle_initial, of noon never]
  have "\<forall>j\<in>set [0, 1, 2, 3, 4]. j < (5::nat)" by simp
  then show ?thesis
    unfolding list_all_iff using t has_registry_initial idle_initial by blast
qed

subsection \<open>The log\<close>

text \<open>
  C9. From the reset of a run to its end the log only grows: it is empty after the reset,
  the log of every state is a prefix of the log of every later state (so its length never
  decreases, no entry is changed and it is not cleared again), and it is not empty in any
  state in which a stage is \<open>success\<close> or \<open>error\<close>.
\<close>

theorem log_append_only:
  assumes "has_registry s" "\<not> isDeploying s"
  shows "logs (hd (run_states clk rej s)) = []
      \<and> sorted_wrt (\<lambda>a b. prefix (logs a) (logs b)) (run_states clk rej s)
      \<and> (\<forall>st\<in>set (run_states clk rej s).
            (\<exists>x\<in>set (steps st). status x = success \<or> status x = error) \<longrightarrow> logs st \<noteq> [])"
proof -
  let ?pn = "projectName s"
  obtain k where k: "k \<in> set [2, 4, 9, 11, 16, 19, 24, 27, 32, 36]"
    "map view (run_states clk rej s) = run_views ?pn k"
    using handleDeploy_views[OF assms(1,2), of clk rej] by metis
  have 3: "\<forall>st\<in>set (run_states clk rej s).
            (\<exists>x\<in>set (steps st). status x = success \<or> status x = error) \<longrightarrow> logs st \<noteq> []"
    using run_views_logged[OF k(1) run_states_view[OF k(2)]]
    unfolding terminal_view logs_empty_view by blast
  show ?thesis
    using logs_run_states[OF assms(2), of clk rej] 3 by blast
qed

theorem log_append_only_witness:
  "has_registry initial_state \<and> \<not> isDeploying initial_state
   \<and> logs (hd (run_states noon (reject_at 11) initial_state)) = []
   \<and> sorted_wrt (\<lambda>a b. prefix (logs a) (logs b)) (run_states noon (reject_at 11) initial_state)
   \<and> list_all (\<lambda>st. (\<exists>x\<in>set (steps st). status x = success \<or> status x = error) \<longrightarrow> logs st \<noteq> [])
         (run_states noon (reject_at 11) initial_state)"
  unfolding list_all_iff
  using log_append_only[OF has_registry_initial idle_initial, of noon "reject_at 11"]
    has_registry_initial idle_initial
  by blast

subsection \<open>The project name\<close>

text \<open>
  C10. The input handler stores the raw string lowercased and with every maximal run of
  whitespace replaced by one hyphen; \<open>My App\<close> becomes \<open>my-app\<close>; the name of every
  reachable state is normalized; and a run that completes after the name was entered
  publishes the URL made of the normalized name.
\<close>

theorem project_name_normalized:
  "normalizeName raw = normalizeName_spec raw
   \<and> normalizeName ''My App'' = ''my-app''
   \<and> (reachable s \<longrightarrow> normalizeName (projectName s) = projectName s)
   \<and> (has_registry s \<and> \<not> isDeploying s \<and> \<not> thrown clk rej (onChange raw s) \<longrightarrow>
        deployedUrl (final_state clk rej (onChange raw s))
          = Some (''https://'' @ normalizeName raw @ ''.vercel.app''))"
proof -
  have 1: "normalizeName raw = normalizeName_spec raw"
    by (simp add: normalizeName_def normalizeName_spec_def replace_spaces_runs)
  have 2: "normalizeName ''My App'' = ''my-app''"
    by code_simp
  have 3: "reachable s \<longrightarrow> normalizeName (projectName s) = projectName s"
    using reachable_invariant by blast
  have 4: "deployedUrl (final_state clk rej (onChange raw s))
          = Some (''https://'' @ normalizeName raw @ ''.vercel.app'')"
    if h: "has_registry s" "\<not> isDeploying s" "\<not> thrown clk rej (onChange raw s)"
  proof -
    let ?s = "onChange raw s"
    have reg: "has_registry ?s" and nd: "\<not> isDeploying ?s" and pn: "projectName ?s = normalizeName raw"
      using h(1,2) by (simp_all add: onChange_def has_registry_def)
    obtain k where k: "k \<in> set [2, 4, 9, 11, 16, 19, 24, 27, 32, 36]"
      "thrown clk rej ?s = (k < 36)"
      "view (final_state clk rej ?s) = last (run_views (projectName ?s) k)"
      using handleDeploy_views[OF reg nd, of clk rej] by metis
    have "k = 36" using h(3) k(1,2) by auto
    then show ?thesis
      by (simp only: deployedUrl_view k(3) pn run_views_completed(1))
  qed
  show ?thesis using 1 2 3 4 by blast
qed

theorem project_name_normalized_witness:
  "reachable initial_state \<and> has_registry initial_state \<and> \<not> isDeploying initial_state
   \<and> \<not> thrown noon never (onChange ''My App'' initial_state)
   \<and> normalizeName ''My App'' = normalizeName_spec ''My App''
   \<and> normalizeName ''My App'' = ''my-app''
   \<and> normalizeName (projectName initial_state) = projectName initial_state
   \<and> deployedUrl (final_state noon never (onChange ''My App'' initial_state))
       = Some ''https://my-app.vercel.app''"
proof -
  have a: "has_registry (onChange ''My App'' initial_state)"
    "\<not> isDeploying (onChange ''My App'' initial_state)"
    using has_registry_initial idle_initial by (simp_all add: onChange_def has_registry_def)
  have nt: "\<not> thrown noon never (onChange ''My App'' initial_state)"
    by (rule completed_run(1)[OF a])
  note n = project_name_normalized[of "''My App''" initial_state noon never]
  from n have e: "normalizeName ''My App'' = ''my-app''" by blast
  have "''https://'' @ normalizeName ''My App'' @ ''.vercel.app'' = ''https://my-app.vercel.app''"
    by (simp add: e)
  then show ?thesis
    using n reachable.init has_registry_initial idle_initial nt by metis
qed

end
